theory Spec2Isabelle
  imports Main
begin

section \<open>The ring-buffer queue of \<^verbatim>\<open>queue.go\<close>\<close>

text \<open>
  The package implements a bounded FIFO queue on a ring buffer that doubles when it is
  full and halves when its occupancy falls to a quarter. This theory embeds the
  sequential part of the package: the struct fields \<^verbatim>\<open>buf\<close>, \<^verbatim>\<open>head\<close>, \<^verbatim>\<open>tail\<close>,
  \<^verbatim>\<open>count\<close>, \<^verbatim>\<open>max_len\<close> and the methods that read and write them.

  \<^item> An element is an \<^verbatim>\<open>interface{}\<close>; \<^verbatim>\<open>nil\<close> is \<open>None\<close>, any other value \<open>Some v\<close>.
  \<^item> Every method takes the queue and returns its outcome together with the queue as
    the call leaves it: \<open>Inr r\<close> when the method returns \<open>r\<close>, \<open>Inl e\<close> when it panics.
    The queue is returned in the panicking case too, so that "a failed call changes
    nothing" is a statement about the model and not a convention.
  \<^item> \<open>Panic msg\<close> is an explicit \<^verbatim>\<open>panic(msg)\<close> of the package; \<open>RuntimeError\<close> is a
    panic raised by the Go runtime (index or slice bounds out of range, division by
    zero, \<^verbatim>\<open>make\<close> with a negative length).
  \<^item> Go's \<^verbatim>\<open>int\<close> is modelled by \<open>int\<close>. In every state the package can reach,
    \<open>head\<close>, \<open>tail\<close> and \<open>count\<close> are bounded by the length of the buffer
    (lemma \<open>inv_exec\<close> below), and the largest value computed is \<open>4 * count\<close>, so the
    arithmetic stays far from the word size for every slice that fits in memory.
  \<^item> The mutex \<^verbatim>\<open>m\<close> is acquired on entry and released by a deferred unlock on every
    exit, also a panicking one; the channel \<^verbatim>\<open>c\<close> is never reassigned. Neither is part
    of the sequential state. The goroutine that \<^verbatim>\<open>Add\<close> spawns to send on \<^verbatim>\<open>c\<close>, and
    \<^verbatim>\<open>Wait\<close> and \<^verbatim>\<open>Stop\<close>, which only operate on \<^verbatim>\<open>c\<close>, are outside this model.
\<close>

subsection \<open>State and outcomes\<close>

datatype error = Panic string | RuntimeError

record 'a Queue =
  buf :: "'a option list"
  head :: int
  tail :: int
  count :: int
  max_len :: int

definition minQueueLen :: int where
  "minQueueLen = 16"

subsection \<open>The Go primitives the package uses\<close>

text \<open>\<^verbatim>\<open>make([]interface{}, n)\<close>: a slice of \<open>n\<close> nils; panics when \<open>n\<close> is negative.\<close>

definition make_slice :: "int \<Rightarrow> error + 'a option list" where
  "make_slice n = (if n < 0 then Inl RuntimeError else Inr (replicate (nat n) None))"

text \<open>
  \<^verbatim>\<open>s[lo:hi]\<close>: panics unless \<open>0 \<le> lo \<le> hi \<le> cap(s)\<close>. Every slice of the package comes
  from \<^verbatim>\<open>make\<close> with a length only, so its capacity is its length.
\<close>

definition slice :: "'a list \<Rightarrow> int \<Rightarrow> int \<Rightarrow> error + 'a list" where
  "slice s lo hi =
     (if 0 \<le> lo \<and> lo \<le> hi \<and> hi \<le> int (length s)
      then Inr (take (nat (hi - lo)) (drop (nat lo) s))
      else Inl RuntimeError)"

text \<open>
  \<^verbatim>\<open>copy(dst, src)\<close>: copies \<open>min(len(dst), len(src))\<close> elements to the front of \<open>dst\<close>
  and returns that number; the model returns the updated \<open>dst\<close> with it.
\<close>

definition copy_slice :: "'a list \<Rightarrow> 'a list \<Rightarrow> 'a list \<times> nat" where
  "copy_slice dst src =
     (let n = min (length dst) (length src) in (take n src @ drop n dst, n))"

text \<open>\<^verbatim>\<open>s[i]\<close> as a read: panics when \<open>i\<close> is out of range.\<close>

definition index :: "'a list \<Rightarrow> int \<Rightarrow> error + 'a" where
  "index s i = (if 0 \<le> i \<and> i < int (length s) then Inr (s ! nat i) else Inl RuntimeError)"

text \<open>
  Go's \<^verbatim>\<open>%\<close> truncates towards zero: the result has the sign of the dividend. The
  division by zero is checked where the operator is used.
\<close>

definition go_rem :: "int \<Rightarrow> int \<Rightarrow> int" where
  "go_rem a b = sgn a * (\<bar>a\<bar> mod \<bar>b\<bar>)"

subsection \<open>The methods\<close>

definition New :: "int \<Rightarrow> 'a Queue" where
  "New ml = \<lparr>buf = replicate (nat minQueueLen) None, head = 0, tail = 0, count = 0,
             max_len = ml\<rparr>"

definition Length :: "'a Queue \<Rightarrow> (error + int) \<times> 'a Queue" where
  "Length q = (Inr (count q), q)"

text \<open>
  \<^verbatim>\<open>resize\<close> builds the new buffer first and assigns the three fields at the end, so a
  panic in it leaves the queue as it was.
\<close>

definition resize :: "'a Queue \<Rightarrow> (error + unit) \<times> 'a Queue" where
  "resize q =
     (case make_slice (count q * 2) of
        Inl e \<Rightarrow> (Inl e, q)
      | Inr newBuf \<Rightarrow>
          if tail q > head q then
            (case slice (buf q) (head q) (tail q) of
               Inl e \<Rightarrow> (Inl e, q)
             | Inr src \<Rightarrow>
                 (Inr (), q\<lparr>head := 0, tail := count q,
                            buf := fst (copy_slice newBuf src)\<rparr>))
          else
            (case slice (buf q) (head q) (int (length (buf q))) of
               Inl e \<Rightarrow> (Inl e, q)
             | Inr src1 \<Rightarrow>
                 (case copy_slice newBuf src1 of
                    (newBuf1, n) \<Rightarrow>
                      (case slice (buf q) 0 (tail q) of
                         Inl e \<Rightarrow> (Inl e, q)
                       | Inr src2 \<Rightarrow>
                           (Inr (), q\<lparr>head := 0, tail := count q,
                                      buf := take n newBuf1 @
                                             fst (copy_slice (drop n newBuf1) src2)\<rparr>)))))"

text \<open>
  \<^verbatim>\<open>Add\<close>: the write \<^verbatim>\<open>q.buf[q.tail] = elem\<close> panics when \<open>tail\<close> is out of range; once it
  has succeeded the buffer is not empty, so the \<^verbatim>\<open>%\<close> after it cannot divide by zero.
\<close>

definition Add :: "'a Queue \<Rightarrow> 'a option \<Rightarrow> (error + unit) \<times> 'a Queue" where
  "Add q elem =
     (if count q \<ge> max_len q then (Inr (), q)
      else
        (case (if count q = int (length (buf q)) then resize q else (Inr (), q)) of
           (Inl e, q1) \<Rightarrow> (Inl e, q1)
         | (Inr _, q1) \<Rightarrow>
             if 0 \<le> tail q1 \<and> tail q1 < int (length (buf q1)) then
               (let q2 = q1\<lparr>buf := (buf q1)[nat (tail q1) := elem]\<rparr>;
                    q3 = q2\<lparr>tail := go_rem (tail q2 + 1) (int (length (buf q2)))\<rparr>
                in (Inr (), q3\<lparr>count := count q3 + 1\<rparr>))
             else (Inl RuntimeError, q1)))"

definition Peek :: "'a Queue \<Rightarrow> (error + 'a option) \<times> 'a Queue" where
  "Peek q =
     (if count q \<le> 0 then (Inl (Panic ''queue: Peek() called on empty queue''), q)
      else (index (buf q) (head q), q))"

definition Get :: "'a Queue \<Rightarrow> int \<Rightarrow> (error + 'a option) \<times> 'a Queue" where
  "Get q i =
     (if i < 0 \<or> i \<ge> count q
      then (Inl (Panic ''queue: Get() called with index out of range''), q)
      else if length (buf q) = 0 then (Inl RuntimeError, q)
      else (index (buf q) (go_rem (head q + i) (int (length (buf q)))), q))"

text \<open>
  \<^verbatim>\<open>Remove\<close>: the write \<^verbatim>\<open>q.buf[q.head] = nil\<close> panics when \<open>head\<close> is out of range;
  after it the buffer is not empty. The shrink test reads the decremented \<open>count\<close>.
\<close>

definition Remove :: "'a Queue \<Rightarrow> (error + unit) \<times> 'a Queue" where
  "Remove q =
     (if count q \<le> 0 then (Inl (Panic ''queue: Remove() called on empty queue''), q)
      else if 0 \<le> head q \<and> head q < int (length (buf q)) then
        (let q1 = q\<lparr>buf := (buf q)[nat (head q) := None]\<rparr>;
             q2 = q1\<lparr>head := go_rem (head q1 + 1) (int (length (buf q1)))\<rparr>;
             q3 = q2\<lparr>count := count q2 - 1\<rparr>
         in if int (length (buf q3)) > minQueueLen \<and> count q3 * 4 = int (length (buf q3))
            then resize q3 else (Inr (), q3))
      else (Inl RuntimeError, q))"

text \<open>
  \<^verbatim>\<open>PeekAndRemove\<close> repeats the body of \<^verbatim>\<open>Remove\<close> (its panic message too) and reads
  the head element into \<open>h\<close> before clearing the slot; that read is the statement that
  panics when \<open>head\<close> is out of range.
\<close>

definition PeekAndRemove :: "'a Queue \<Rightarrow> (error + 'a option) \<times> 'a Queue" where
  "PeekAndRemove q =
     (if count q \<le> 0 then (Inl (Panic ''queue: Remove() called on empty queue''), q)
      else
        (case index (buf q) (head q) of
           Inl e \<Rightarrow> (Inl e, q)
         | Inr h \<Rightarrow>
             (let q1 = q\<lparr>buf := (buf q)[nat (head q) := None]\<rparr>;
                  q2 = q1\<lparr>head := go_rem (head q1 + 1) (int (length (buf q1)))\<rparr>;
                  q3 = q2\<lparr>count := count q2 - 1\<rparr>
              in if int (length (buf q3)) > minQueueLen \<and>
                    count q3 * 4 = int (length (buf q3))
                 then (case resize q3 of
                         (Inl e, q4) \<Rightarrow> (Inl e, q4)
                       | (Inr _, q4) \<Rightarrow> (Inr h, q4))
                 else (Inr h, q3))))"

subsection \<open>Sequences of calls\<close>

text \<open>
  A client drives the queue by a sequence of calls. \<open>step q c\<close> is the queue after the
  call \<open>c\<close> on \<open>q\<close>, whatever its outcome (a client that recovers from a panic goes on
  with the queue as the panic left it), and \<open>exec cs q\<close> runs a sequence. The states
  \<open>exec cs (New ml)\<close> are the states the package can be in.
\<close>

datatype 'a call =
  CAdd "'a option" | CRemove | CPeekAndRemove | CPeek | CGet int | CLength

fun step :: "'a Queue \<Rightarrow> 'a call \<Rightarrow> 'a Queue" where
  "step q (CAdd x) = snd (Add q x)"
| "step q CRemove = snd (Remove q)"
| "step q CPeekAndRemove = snd (PeekAndRemove q)"
| "step q CPeek = snd (Peek q)"
| "step q (CGet i) = snd (Get q i)"
| "step q CLength = snd (Length q)"

definition exec :: "'a call list \<Rightarrow> 'a Queue \<Rightarrow> 'a Queue" where
  "exec cs q = foldl step q cs"

text \<open>
  What a call takes out of the queue: \<^verbatim>\<open>PeekAndRemove\<close> hands the element back;
  \<^verbatim>\<open>Remove\<close> returns nothing, so its element is the one \<^verbatim>\<open>Peek\<close> shows just before it.
  \<open>removed cs q\<close> lists the elements taken out along a sequence, in the order of the
  calls.
\<close>

fun taken :: "'a Queue \<Rightarrow> 'a call \<Rightarrow> 'a option list" where
  "taken q CRemove =
     (case (fst (Peek q), fst (Remove q)) of (Inr v, Inr _) \<Rightarrow> [v] | _ \<Rightarrow> [])"
| "taken q CPeekAndRemove = (case fst (PeekAndRemove q) of Inr v \<Rightarrow> [v] | Inl _ \<Rightarrow> [])"
| "taken q _ = []"

fun removed :: "'a call list \<Rightarrow> 'a Queue \<Rightarrow> 'a option list" where
  "removed [] q = []"
| "removed (c # cs) q = taken q c @ removed cs (step q c)"

text \<open>The elements a sequence of calls passes to \<^verbatim>\<open>Add\<close>, in order.\<close>

fun added :: "'a call list \<Rightarrow> 'a option list" where
  "added [] = []"
| "added (CAdd x # cs) = x # added cs"
| "added (_ # cs) = added cs"

subsection \<open>The elements held, and the bounded FIFO they implement\<close>

text \<open>
  The elements the queue holds, oldest first: the \<open>count\<close> slots from \<open>head\<close> on, around
  the end of the buffer.
\<close>

definition contents :: "'a Queue \<Rightarrow> 'a option list" where
  "contents q =
     map (\<lambda>i. buf q ! nat ((head q + int i) mod int (length (buf q)))) [0..<nat (count q)]"

text \<open>
  The specification's queue, with no buffer: a list that \<^verbatim>\<open>Add\<close> extends at the end
  unless it already has \<open>capacityLimit\<close> elements, and that a removal shortens at the
  front. \<open>held ml cs\<close> is that list after the calls \<open>cs\<close> on an empty queue of limit \<open>ml\<close>.
\<close>

fun fifo_call :: "int \<Rightarrow> 'a option list \<Rightarrow> 'a call \<Rightarrow> 'a option list" where
  "fifo_call ml xs (CAdd x) = (if int (length xs) \<ge> ml then xs else xs @ [x])"
| "fifo_call ml xs CRemove = drop 1 xs"
| "fifo_call ml xs CPeekAndRemove = drop 1 xs"
| "fifo_call ml xs _ = xs"

definition held :: "int \<Rightarrow> 'a call list \<Rightarrow> 'a option list" where
  "held ml cs = foldl (fifo_call ml) [] cs"

text \<open>
  The invariant of the representation: the cursors lie in the buffer, \<open>tail\<close> is
  \<open>count\<close> slots after \<open>head\<close> around the ring, and the buffer length is the minimum
  length doubled some number of times.
\<close>

definition ring :: "'a Queue \<Rightarrow> bool" where
  "ring q \<longleftrightarrow>
     0 \<le> head q \<and> head q < int (length (buf q)) \<and>
     0 \<le> count q \<and> count q \<le> int (length (buf q)) \<and>
     tail q = (head q + count q) mod int (length (buf q))"

definition buflen_ok :: "nat \<Rightarrow> bool" where
  "buflen_ok n \<longleftrightarrow> (\<exists>k \<in> {0..n}. n = 16 * 2 ^ k)"

definition inv :: "'a Queue \<Rightarrow> bool" where
  "inv q \<longleftrightarrow> ring q \<and> buflen_ok (length (buf q))"

text \<open>
  The specification's EmptyQueue condition: the two panics the package raises on an
  empty queue. \<^verbatim>\<open>PeekAndRemove\<close> raises the one of \<^verbatim>\<open>Remove\<close>.
\<close>

definition EmptyQueue :: "error + 'r \<Rightarrow> bool" where
  "EmptyQueue r \<longleftrightarrow>
     r = Inl (Panic ''queue: Peek() called on empty queue'') \<or>
     r = Inl (Panic ''queue: Remove() called on empty queue'')"

text \<open>The specification's IndexOutOfRange condition: the panic of \<^verbatim>\<open>Get\<close>.\<close>

definition IndexOutOfRange :: "error + 'r \<Rightarrow> bool" where
  "IndexOutOfRange r \<longleftrightarrow> r = Inl (Panic ''queue: Get() called with index out of range'')"

text \<open>
  The sequential composition the specification compares \<^verbatim>\<open>PeekAndRemove\<close> with: a call
  of \<^verbatim>\<open>Peek\<close> and, when it returns, a call of \<^verbatim>\<open>Remove\<close>; the result is the element
  that \<^verbatim>\<open>Peek\<close> returned.
\<close>

definition Peek_then_Remove :: "'a Queue \<Rightarrow> (error + 'a option) \<times> 'a Queue" where
  "Peek_then_Remove q =
     (case Peek q of
        (Inl e, q1) \<Rightarrow> (Inl e, q1)
      | (Inr v, q1) \<Rightarrow>
          (case Remove q1 of
             (Inl e, q2) \<Rightarrow> (Inl e, q2)
           | (Inr _, q2) \<Rightarrow> (Inr v, q2)))"

text \<open>The specification's concrete scenario: four calls of \<^verbatim>\<open>Add\<close> on a queue of limit 3.\<close>

definition scenario :: "int Queue" where
  "scenario = exec [CAdd (Some 1), CAdd (Some 2), CAdd (Some 3), CAdd (Some 4)] (New 3)"

section \<open>The representation and its invariant\<close>

subsection \<open>Arithmetic of the ring\<close>

lemma go_rem_mod: "0 \<le> a \<Longrightarrow> 0 < b \<Longrightarrow> go_rem a b = a mod b"
  by (simp add: go_rem_def sgn_if)

lemma contents_nat:
  assumes "head q = int h" "count q = int c"
  shows "contents q = map (\<lambda>i. buf q ! ((h + i) mod length (buf q))) [0..<c]"
  using assms by (simp add: contents_def flip: of_nat_add of_nat_mod)

lemma ring_natE:
  assumes "ring q"
  obtains h c where "head q = int h" "count q = int c" "h < length (buf q)"
    "c \<le> length (buf q)" "tail q = int ((h + c) mod length (buf q))"
proof -
  from assms have a: "0 \<le> head q" "head q < int (length (buf q))" "0 \<le> count q"
    "count q \<le> int (length (buf q))" "tail q = (head q + count q) mod int (length (buf q))"
    by (simp_all add: ring_def)
  define h where "h = nat (head q)"
  define c where "c = nat (count q)"
  have hh: "head q = int h" and cc: "count q = int c" using a by (simp_all add: h_def c_def)
  have "h < length (buf q)" "c \<le> length (buf q)" using a hh cc by simp_all
  moreover have "tail q = int ((h + c) mod length (buf q))"
    using a(5) hh cc by (simp add: of_nat_mod)
  ultimately show thesis using that hh cc by blast
qed

lemma map_ring_nowrap:
  assumes "h + c \<le> length xs"
  shows "map (\<lambda>i. xs ! ((h + i) mod length xs)) [0..<c] = take c (drop h xs)"
  using assms by (auto intro!: nth_equalityI)

lemma map_ring_wrap:
  assumes "h < length xs" "c \<le> length xs" "length xs \<le> h + c"
  shows "map (\<lambda>i. xs ! ((h + i) mod length xs)) [0..<c] = drop h xs @ take (h + c - length xs) xs"
proof (rule nth_equalityI)
  show "length (map (\<lambda>i. xs ! ((h + i) mod length xs)) [0..<c]) = length (drop h xs @ take (h + c - length xs) xs)"
    using assms by auto
next
  fix i assume "i < length (map (\<lambda>i. xs ! ((h + i) mod length xs)) [0..<c])"
  then have i: "i < c" by simp
  show "map (\<lambda>i. xs ! ((h + i) mod length xs)) [0..<c] ! i = (drop h xs @ take (h + c - length xs) xs) ! i"
  proof (cases "h + i < length xs")
    case True
    then have "i < length xs - h" by arith
    then show ?thesis using True i assms by (simp add: nth_append)
  next
    case False
    have m: "(h + i) mod length xs = h + i - length xs"
      using False assms i by (simp add: mod_if)
    have n: "\<not> i < length xs - h" using False by arith
    have k: "i - (length xs - h) = h + i - length xs" using False assms by arith
    have l: "h + i - length xs < h + c - length xs" using False i by arith
    show ?thesis using i n l assms(1) by (simp add: nth_append m k)
  qed
qed


lemma resize_ring:
  assumes "ring q" "0 < count q"
  shows "resize q = (Inr (), q\<lparr>head := 0, tail := count q,
           buf := contents q @ replicate (nat (count q)) None\<rparr>)"
proof -
  from assms(1) obtain h c where hc: "head q = int h" "count q = int c" "h < length (buf q)"
    "c \<le> length (buf q)" "tail q = int ((h + c) mod length (buf q))"
    by (rule ring_natE)
  let ?n = "length (buf q)"
  have c0: "0 < c" using assms(2) hc by simp
  have cn: "nat (count q) = c" using hc by simp
  have mk: "make_slice (count q * 2) = Inr (replicate (2 * c) None)"
    using hc by (simp add: make_slice_def nat_mult_distrib)
  have cont: "contents q = map (\<lambda>i. buf q ! ((h + i) mod ?n)) [0..<c]"
    using hc(1,2) by (rule contents_nat)
  show ?thesis
  proof (cases "h + c < ?n")
    case True
    then have t: "tail q = int (h + c)" using hc by simp
    have gt: "tail q > head q" using t hc c0 by simp
    have sl: "slice (buf q) (head q) (tail q) = Inr (take c (drop h (buf q)))"
      using True hc t by (simp add: slice_def)
    have cp: "fst (copy_slice (replicate (2 * c) None) (take c (drop h (buf q)))) =
      take c (drop h (buf q)) @ replicate c None"
    proof -
      have "c \<le> length (buf q) - h" using True by arith
      then show ?thesis by (simp add: copy_slice_def min_def)
    qed
    have "contents q = take c (drop h (buf q))"
      using True cont by (simp add: map_ring_nowrap)
    then show ?thesis by (simp add: resize_def mk gt sl cp cn)
  next
    case False
    then have m: "(h + c) mod ?n = h + c - ?n" using hc by (simp add: mod_if)
    have t: "tail q = int (h + c - ?n)" using hc m by simp
    have le: "\<not> tail q > head q" using t hc by simp
    have sl1: "slice (buf q) (head q) (int ?n) = Inr (drop h (buf q))"
      using hc by (simp add: slice_def)
    have cp1: "copy_slice (replicate (2 * c) None) (drop h (buf q)) =
      (drop h (buf q) @ replicate (2 * c - (?n - h)) None, ?n - h)"
    proof -
      have a: "?n - h \<le> 2 * c" using False by arith
      show ?thesis using a by (simp add: copy_slice_def Let_def min_absorb2)
    qed
    have sl2: "slice (buf q) 0 (tail q) = Inr (take (h + c - ?n) (buf q))"
      using hc t by (simp add: slice_def)
    have k: "2 * c - (?n - h) - (h + c - ?n) = c" using False hc by arith
    have cp2: "fst (copy_slice (replicate (2 * c - (?n - h)) None) (take (h + c - ?n) (buf q))) =
      take (h + c - ?n) (buf q) @ replicate c None"
    proof -
      have a: "h + c - ?n \<le> ?n" using hc by arith
      have b: "h + c - ?n \<le> 2 * c - (?n - h)" using False hc by arith
      have k': "2 * c - (?n - h + (h + c - ?n)) = c" using False hc by arith
      show ?thesis using a b by (simp add: copy_slice_def Let_def min_absorb2 k')
    qed
    have "contents q = drop h (buf q) @ take (h + c - ?n) (buf q)"
      using False hc cont by (simp add: map_ring_wrap)
    then show ?thesis by (simp add: resize_def mk le sl1 cp1 sl2 cp2 cn)
  qed
qed

lemma length_contents: "length (contents q) = nat (count q)"
  by (simp add: contents_def)

lemma mod_ring_inj:
  fixes h i j n :: nat
  assumes "i < j" "j - i < n"
  shows "(h + i) mod n \<noteq> (h + j) mod n"
proof
  assume "(h + i) mod n = (h + j) mod n"
  then have "(h + j) mod n = (h + i) mod n" by simp
  moreover have "h + i \<le> h + j" using assms by simp
  ultimately have "n dvd (h + j) - (h + i)" by (simp add: mod_eq_dvd_iff_nat)
  then have "n dvd j - i" by simp
  moreover have "0 < j - i" using assms by simp
  ultimately show False using assms(2) by (simp add: nat_dvd_not_less)
qed

lemma ring_resized:
  assumes "ring q" "0 < count q"
  shows "ring (q\<lparr>head := 0, tail := count q, buf := contents q @ replicate (nat (count q)) None\<rparr>)"
    and "contents (q\<lparr>head := 0, tail := count q, buf := contents q @ replicate (nat (count q)) None\<rparr>) = contents q"
proof -
  let ?q' = "q\<lparr>head := 0, tail := count q, buf := contents q @ replicate (nat (count q)) None\<rparr>"
  have c: "0 \<le> count q" using assms by simp
  show "ring ?q'" using assms(2) by (simp add: ring_def length_contents)
  have "contents ?q' = map (\<lambda>i. buf ?q' ! ((0 + i) mod length (buf ?q'))) [0..<nat (count q)]"
    using c by (intro contents_nat) simp_all
  also have "\<dots> = contents q"
    by (rule nth_equalityI) (simp_all add: length_contents nth_append)
  finally show "contents ?q' = contents q" .
qed

lemma ring_push:
  assumes "ring q" "count q < int (length (buf q))"
  shows "ring (q\<lparr>buf := (buf q)[nat (tail q) := x],
                 tail := (tail q + 1) mod int (length (buf q)), count := count q + 1\<rparr>)"
    and "contents (q\<lparr>buf := (buf q)[nat (tail q) := x],
                 tail := (tail q + 1) mod int (length (buf q)), count := count q + 1\<rparr>) =
         contents q @ [x]"
proof -
  let ?q' = "q\<lparr>buf := (buf q)[nat (tail q) := x],
                 tail := (tail q + 1) mod int (length (buf q)), count := count q + 1\<rparr>"
  let ?n = "length (buf q)"
  from assms(1) obtain h c where hc: "head q = int h" "count q = int c" "h < ?n"
    "c \<le> ?n" "tail q = int ((h + c) mod ?n)"
    by (rule ring_natE)
  have cn: "c < ?n" using assms(2) hc by simp
  have "(tail q + 1) mod int ?n = (head q + (count q + 1)) mod int ?n"
    using assms(1) by (simp add: ring_def mod_simps add.assoc)
  then show "ring ?q'" using assms by (simp add: ring_def)
  have t: "nat (tail q) = (h + c) mod ?n" using hc by simp
  have "contents ?q' = map (\<lambda>i. buf ?q' ! ((h + i) mod length (buf ?q'))) [0..<Suc c]"
    using hc by (intro contents_nat) simp_all
  also have "\<dots> = map (\<lambda>i. buf q ! ((h + i) mod ?n)) [0..<c] @ [x]"
  proof -
    have "\<And>i. i < c \<Longrightarrow> (h + c) mod ?n \<noteq> (h + i) mod ?n"
      using cn mod_ring_inj [of _ c ?n h] by force
    then have "map (\<lambda>i. (buf q)[(h + c) mod ?n := x] ! ((h + i) mod ?n)) [0..<c] =
        map (\<lambda>i. buf q ! ((h + i) mod ?n)) [0..<c]"
      by (intro map_cong) simp_all
    moreover have "(h + c) mod ?n < ?n" using cn by (intro mod_less_divisor) auto
    then have "(buf q)[(h + c) mod ?n := x] ! ((h + c) mod ?n) = x"
      by (rule nth_list_update_eq)
    ultimately show ?thesis by (simp add: t)
  qed
  also have "\<dots> = contents q @ [x]" using hc(1,2) by (simp add: contents_nat)
  finally show "contents ?q' = contents q @ [x]" .
qed

lemma ring_pop:
  assumes "ring q" "0 < count q"
  shows "ring (q\<lparr>buf := (buf q)[nat (head q) := None],
                 head := (head q + 1) mod int (length (buf q)), count := count q - 1\<rparr>)"
    and "contents (q\<lparr>buf := (buf q)[nat (head q) := None],
                 head := (head q + 1) mod int (length (buf q)), count := count q - 1\<rparr>) =
         drop 1 (contents q)"
    and "index (buf q) (head q) = Inr (contents q ! 0)"
proof -
  let ?q' = "q\<lparr>buf := (buf q)[nat (head q) := None],
                 head := (head q + 1) mod int (length (buf q)), count := count q - 1\<rparr>"
  let ?n = "length (buf q)"
  from assms(1) obtain h c where hc: "head q = int h" "count q = int c" "h < ?n"
    "c \<le> ?n" "tail q = int ((h + c) mod ?n)"
    by (rule ring_natE)
  have c0: "0 < c" using assms(2) hc by simp
  have "((head q + 1) mod int ?n + (count q - 1)) mod int ?n = (head q + count q) mod int ?n"
    by (simp add: mod_simps)
  moreover have "0 < int ?n" using hc(3) by auto
  ultimately show "ring ?q'" using assms by (simp add: ring_def)
  have h': "head ?q' = int (Suc h mod ?n)" using hc(1) by (simp add: of_nat_mod add.commute)
  have c': "count ?q' = int (c - 1)" using hc c0 by (simp add: of_nat_diff)
  have "contents ?q' = map (\<lambda>i. buf ?q' ! ((Suc h mod ?n + i) mod length (buf ?q'))) [0..<c - 1]"
    using h' c' by (rule contents_nat)
  also have "\<dots> = map (\<lambda>i. buf q ! ((h + Suc i) mod ?n)) [0..<c - 1]"
  proof (intro map_cong refl)
    fix i assume "i \<in> set [0..<c - 1]"
    then have i: "Suc i < c" by simp
    have "(h + 0) mod ?n \<noteq> (h + Suc i) mod ?n"
      using i hc by (intro mod_ring_inj) simp_all
    then have "h \<noteq> (h + Suc i) mod ?n" using hc by simp
    then have "nat (head q) \<noteq> (h + Suc i) mod ?n" using hc by simp
    moreover have "(Suc h mod ?n + i) mod ?n = (h + Suc i) mod ?n"
      by (simp add: mod_simps)
    ultimately show "buf ?q' ! ((Suc h mod ?n + i) mod length (buf ?q')) = buf q ! ((h + Suc i) mod ?n)"
      using hc by simp
  qed
  also have "\<dots> = drop 1 (contents q)"
  proof (rule nth_equalityI)
    show "length (map (\<lambda>i. buf q ! ((h + Suc i) mod ?n)) [0..<c - 1]) = length (drop 1 (contents q))"
      using hc(2) by (simp add: length_contents)
  next
    fix i assume "i < length (map (\<lambda>i. buf q ! ((h + Suc i) mod ?n)) [0..<c - 1])"
    then have "Suc i < c" "i < c - 1" by simp_all
    then show "map (\<lambda>i. buf q ! ((h + Suc i) mod ?n)) [0..<c - 1] ! i = drop 1 (contents q) ! i"
      using hc(1,2) by (simp add: contents_nat)
  qed
  finally show "contents ?q' = drop 1 (contents q)" .
  show "index (buf q) (head q) = Inr (contents q ! 0)"
    using hc c0 by (simp add: index_def contents_nat)
qed

lemma buflen_ok_iff: "buflen_ok n \<longleftrightarrow> (\<exists>k. n = 16 * 2 ^ k)"
proof
  assume "buflen_ok n" then show "\<exists>k. n = 16 * 2 ^ k" by (auto simp: buflen_ok_def)
next
  assume "\<exists>k. n = 16 * 2 ^ k"
  then obtain k where k: "n = 16 * 2 ^ k" ..
  have "k < 2 ^ k" by (rule less_exp)
  then have "k \<le> 16 * 2 ^ k" by arith
  then have "k \<le> n" using k by simp
  then show "buflen_ok n" using k by (auto simp: buflen_ok_def)
qed

lemma buflen_ok_ge: "buflen_ok n \<Longrightarrow> 16 \<le> n"
  by (auto simp: buflen_ok_iff)

lemma buflen_ok_double: "buflen_ok n \<Longrightarrow> buflen_ok (2 * n)"
proof -
  assume "buflen_ok n"
  then obtain k where "n = 16 * 2 ^ k" by (auto simp: buflen_ok_iff)
  then have "2 * n = 16 * 2 ^ Suc k" by simp
  then show ?thesis unfolding buflen_ok_iff by blast
qed

lemma buflen_ok_half:
  assumes "buflen_ok n" "16 < n" "4 * c = n"
  shows "buflen_ok (2 * c)"
proof -
  from assms(1) obtain k where k: "n = 16 * 2 ^ k" by (auto simp: buflen_ok_iff)
  with assms(2) have "k \<noteq> 0" by (cases k) simp_all
  then obtain j where "k = Suc j" by (cases k) simp_all
  with k assms(3) have "2 * c = 16 * 2 ^ j" by simp
  then show ?thesis unfolding buflen_ok_iff by blast
qed

lemma inv_New: "inv (New ml)"
proof -
  have "buflen_ok 16" unfolding buflen_ok_iff by (rule exI [of _ 0]) simp
  then show ?thesis by (simp add: inv_def ring_def New_def minQueueLen_def)
qed

lemma contents_New: "contents (New ml) = []"
  by (simp add: contents_def New_def)

lemma Add_full: "count q \<ge> max_len q \<Longrightarrow> Add q x = (Inr (), q)"
  by (simp add: Add_def)

lemma Add_nogrow:
  assumes "ring q" "count q < max_len q" "count q < int (length (buf q))"
  shows "Add q x = (Inr (), q\<lparr>buf := (buf q)[nat (tail q) := x],
            tail := (tail q + 1) mod int (length (buf q)), count := count q + 1\<rparr>)"
proof -
  have n: "0 < int (length (buf q))" using assms(1) unfolding ring_def by linarith
  have t: "0 \<le> tail q" "tail q < int (length (buf q))"
    using assms(1) n by (simp_all add: ring_def)
  then have "go_rem (tail q + 1) (int (length (buf q))) = (tail q + 1) mod int (length (buf q))"
    using n by (intro go_rem_mod) simp_all
  then show ?thesis using assms t by (simp add: Add_def Let_def)
qed

lemma Add_grow:
  assumes "ring q" "count q < max_len q" "count q = int (length (buf q))" "1 < count q"
  shows "Add q x = (Inr (), q\<lparr>head := 0, tail := count q + 1, count := count q + 1,
            buf := contents q @ x # replicate (nat (count q) - 1) None\<rparr>)"
proof -
  let ?n = "length (buf q)"
  have n: "1 < ?n" using assms(3,4) by simp
  have c0: "0 < count q" using assms(4) by simp
  let ?q1 = "q\<lparr>head := 0, tail := count q, buf := contents q @ replicate (nat (count q)) None\<rparr>"
  have r: "resize q = (Inr (), ?q1)" using assms(1) c0 by (rule resize_ring)
  have g: "go_rem (int ?n + 1) (2 * int ?n) = int ?n + 1"
  proof -
    have "go_rem (int ?n + 1) (2 * int ?n) = (int ?n + 1) mod (2 * int ?n)"
      using n by (intro go_rem_mod) auto
    also have "\<dots> = int ?n + 1" using n by (intro mod_pos_pos_trivial) auto
    finally show ?thesis .
  qed
  have lc: "length (contents q) = ?n" by (simp add: length_contents assms(3))
  have u: "(contents q @ replicate ?n None)[?n := x] = contents q @ x # replicate (?n - Suc 0) None"
    using n by (cases ?n) (simp_all add: list_update_append lc)
  have ne: "buf q \<noteq> []" using n by auto
  show ?thesis using assms(2) ne
    by (simp add: Add_def r Let_def length_contents assms(3) g u)
qed

lemma resize_outcome: "fst (resize q) = Inr () \<or> fst (resize q) = Inl RuntimeError"
  by (simp add: resize_def make_slice_def slice_def split: sum.splits prod.splits)

lemma resize_not_Panic: "resize q \<noteq> (Inl (Panic s), q')"
  using resize_outcome [of q] by auto


subsection \<open>The methods on the ring\<close>

lemma Remove_ring:
  assumes "ring q" "0 < count q"
  defines "q3 \<equiv> q\<lparr>buf := (buf q)[nat (head q) := None],
                     head := (head q + 1) mod int (length (buf q)), count := count q - 1\<rparr>"
  shows "Remove q =
           (if minQueueLen < int (length (buf q)) \<and> (count q - 1) * 4 = int (length (buf q))
            then (Inr (), q3\<lparr>head := 0, tail := count q3,
                             buf := contents q3 @ replicate (nat (count q3)) None\<rparr>)
            else (Inr (), q3))"
    and "PeekAndRemove q =
           (if minQueueLen < int (length (buf q)) \<and> (count q - 1) * 4 = int (length (buf q))
            then (Inr (contents q ! 0), q3\<lparr>head := 0, tail := count q3,
                             buf := contents q3 @ replicate (nat (count q3)) None\<rparr>)
            else (Inr (contents q ! 0), q3))"
proof -
  have h: "0 \<le> head q" "head q < int (length (buf q))"
    using assms(1) by (simp_all add: ring_def)
  then have g: "go_rem (head q + 1) (int (length (buf q))) = (head q + 1) mod int (length (buf q))"
    by (intro go_rem_mod) auto
  have r3: "ring q3" unfolding q3_def using assms(1,2) by (rule ring_pop(1))
  have ix: "index (buf q) (head q) = Inr (contents q ! 0)"
    using assms(1,2) by (rule ring_pop(3))
  have rs: "minQueueLen < int (length (buf q)) \<Longrightarrow> (count q - 1) * 4 = int (length (buf q)) \<Longrightarrow>
    resize q3 = (Inr (), q3\<lparr>head := 0, tail := count q3,
                             buf := contents q3 @ replicate (nat (count q3)) None\<rparr>)"
  proof -
    assume "minQueueLen < int (length (buf q))" "(count q - 1) * 4 = int (length (buf q))"
    then have "0 < count q3" by (simp add: q3_def minQueueLen_def)
    with r3 show ?thesis by (rule resize_ring)
  qed
  have nonpos: "\<not> count q \<le> 0" using assms(2) by simp
  show "Remove q =
           (if minQueueLen < int (length (buf q)) \<and> (count q - 1) * 4 = int (length (buf q))
            then (Inr (), q3\<lparr>head := 0, tail := count q3,
                             buf := contents q3 @ replicate (nat (count q3)) None\<rparr>)
            else (Inr (), q3))"
    using rs by (simp add: Remove_def nonpos h g Let_def flip: q3_def)
  show "PeekAndRemove q =
           (if minQueueLen < int (length (buf q)) \<and> (count q - 1) * 4 = int (length (buf q))
            then (Inr (contents q ! 0), q3\<lparr>head := 0, tail := count q3,
                             buf := contents q3 @ replicate (nat (count q3)) None\<rparr>)
            else (Inr (contents q ! 0), q3))"
    using rs by (simp add: PeekAndRemove_def nonpos ix g Let_def flip: q3_def)
qed


lemma count_contents: "0 \<le> count q \<Longrightarrow> count q = int (length (contents q))"
  by (simp add: length_contents)

lemma Add_inv:
  assumes "inv q"
  shows "fst (Add q x) = Inr ()"
    and "inv (snd (Add q x))"
    and "max_len (snd (Add q x)) = max_len q"
    and "contents (snd (Add q x)) = fifo_call (max_len q) (contents q) (CAdd x)"
proof -
  have r: "ring q" and b: "buflen_ok (length (buf q))" using assms by (simp_all add: inv_def)
  have n16: "16 \<le> length (buf q)" using b by (rule buflen_ok_ge)
  have cl: "count q = int (length (contents q))"
    using r by (intro count_contents) (simp add: ring_def)
  have "fst (Add q x) = Inr () \<and> inv (snd (Add q x)) \<and> max_len (snd (Add q x)) = max_len q \<and>
        contents (snd (Add q x)) = fifo_call (max_len q) (contents q) (CAdd x)"
  proof (cases "count q \<ge> max_len q")
    case True
    then show ?thesis using assms by (simp add: Add_full cl [symmetric])
  next
    case False
    then have lt: "count q < max_len q" by simp
    show ?thesis
    proof (cases "count q = int (length (buf q))")
      case True
      then have c1: "1 < count q" using n16 by simp
      let ?n = "length (buf q)"
      let ?q' = "q\<lparr>head := 0, tail := count q + 1, count := count q + 1,
            buf := contents q @ x # replicate (nat (count q) - 1) None\<rparr>"
      have A: "Add q x = (Inr (), ?q')" using r lt True c1 by (rule Add_grow)
      have lc: "length (contents q) = ?n" by (simp add: length_contents True)
      have n1: "1 < ?n" using n16 by simp
      have len: "length (buf ?q') = 2 * ?n"
        using n1 by (simp add: lc True)
      have ne: "buf q \<noteq> []" using n1 by auto
      have "ring ?q'" using n1 ne by (simp add: ring_def lc True)
      moreover have "buflen_ok (length (buf ?q'))" unfolding len using b by (rule buflen_ok_double)
      moreover have "contents ?q' = contents q @ [x]"
      proof -
        have "contents ?q' = map (\<lambda>i. buf ?q' ! ((0 + i) mod length (buf ?q'))) [0..<Suc ?n]"
          using True by (intro contents_nat) simp_all
        also have "\<dots> = contents q @ [x]"
        proof (rule nth_equalityI)
          show "length (map (\<lambda>i. buf ?q' ! ((0 + i) mod length (buf ?q'))) [0..<Suc ?n]) =
            length (contents q @ [x])" by (simp add: lc)
        next
          fix i assume "i < length (map (\<lambda>i. buf ?q' ! ((0 + i) mod length (buf ?q'))) [0..<Suc ?n])"
          then have i: "i < Suc ?n" by simp
          then have "i mod length (buf ?q') = i" using n1 unfolding len by simp
          then show "map (\<lambda>i. buf ?q' ! ((0 + i) mod length (buf ?q'))) [0..<Suc ?n] ! i =
            (contents q @ [x]) ! i"
            using i by (simp add: nth_append lc del: upt_Suc)
        qed
        finally show ?thesis .
      qed
      ultimately show ?thesis using A lt by (simp add: inv_def lc True)
    next
      case False
      then have lb: "count q < int (length (buf q))" using r by (simp add: ring_def)
      let ?q' = "q\<lparr>buf := (buf q)[nat (tail q) := x],
            tail := (tail q + 1) mod int (length (buf q)), count := count q + 1\<rparr>"
      have A: "Add q x = (Inr (), ?q')" using r lt lb by (rule Add_nogrow)
      have "ring ?q'" using r lb by (rule ring_push(1))
      moreover have "contents ?q' = contents q @ [x]" using r lb by (rule ring_push(2))
      ultimately show ?thesis using A lt b by (simp add: inv_def cl [symmetric])
    qed
  qed
  then show "fst (Add q x) = Inr ()" "inv (snd (Add q x))" "max_len (snd (Add q x)) = max_len q"
    "contents (snd (Add q x)) = fifo_call (max_len q) (contents q) (CAdd x)" by simp_all
qed

lemma Remove_empty: "count q \<le> 0 \<Longrightarrow> snd (Remove q) = q \<and> snd (PeekAndRemove q) = q"
  by (simp add: Remove_def PeekAndRemove_def)

lemma snd_PeekAndRemove: "snd (PeekAndRemove q) = snd (Remove q)"
  by (auto simp: PeekAndRemove_def Remove_def index_def Let_def split: sum.splits prod.splits)

lemma Remove_inv:
  assumes "inv q"
  shows "inv (snd (Remove q))"
    and "max_len (snd (Remove q)) = max_len q"
    and "contents (snd (Remove q)) = drop 1 (contents q)"
    and "0 < count q \<Longrightarrow> fst (Remove q) = Inr ()"
    and "0 < count q \<Longrightarrow> fst (PeekAndRemove q) = Inr (contents q ! 0)"
proof -
  have r: "ring q" and b: "buflen_ok (length (buf q))" using assms by (simp_all add: inv_def)
  have "inv (snd (Remove q)) \<and> max_len (snd (Remove q)) = max_len q \<and>
        contents (snd (Remove q)) = drop 1 (contents q) \<and>
        (0 < count q \<longrightarrow> fst (Remove q) = Inr () \<and> fst (PeekAndRemove q) = Inr (contents q ! 0))"
  proof (cases "0 < count q")
    case False
    then have "count q = 0" using r by (simp add: ring_def)
    then show ?thesis using assms by (simp add: Remove_empty contents_def)
  next
    case True
    let ?q3 = "q\<lparr>buf := (buf q)[nat (head q) := None],
                     head := (head q + 1) mod int (length (buf q)), count := count q - 1\<rparr>"
    have r3: "ring ?q3" using r True by (rule ring_pop(1))
    have c3: "contents ?q3 = drop 1 (contents q)" using r True by (rule ring_pop(2))
    note R = Remove_ring [OF r True]
    show ?thesis
    proof (cases "minQueueLen < int (length (buf q)) \<and> (count q - 1) * 4 = int (length (buf q))")
      case False
      have "Remove q = (Inr (), ?q3)" "PeekAndRemove q = (Inr (contents q ! 0), ?q3)"
        by (simp_all only: R False if_False)
      then show ?thesis using r3 c3 b by (simp add: inv_def)
    next
      case sh: True
      then have p3: "0 < count ?q3" by (simp add: minQueueLen_def)
      let ?q4 = "?q3\<lparr>head := 0, tail := count ?q3,
                             buf := contents ?q3 @ replicate (nat (count ?q3)) None\<rparr>"
      have "ring ?q4" using r3 p3 by (rule ring_resized(1))
      moreover have "contents ?q4 = contents ?q3" using r3 p3 by (rule ring_resized(2))
      moreover have "buflen_ok (length (buf ?q4))"
      proof -
        have a: "16 < length (buf q)" using sh by (simp add: minQueueLen_def)
        have "(count q - 1) * 4 = int (length (buf q))" using sh by simp
        moreover obtain c3 where c3: "count q - 1 = int c3"
          using True by (metis nonneg_int_cases zle_diff1_eq)
        ultimately have "int c3 * 4 = int (length (buf q))" by simp
        then have "4 * c3 = length (buf q)" by arith
        then have d: "4 * nat (count q - 1) = length (buf q)" by (simp add: c3)
        have "buflen_ok (2 * nat (count q - 1))" using b a d by (rule buflen_ok_half)
        then show ?thesis by (simp add: length_contents mult_2)
      qed
      moreover have "Remove q = (Inr (), ?q4)" "PeekAndRemove q = (Inr (contents q ! 0), ?q4)"
        by (simp_all only: R sh if_True simp_thms)
      ultimately show ?thesis using c3 by (simp add: inv_def)
    qed
  qed
  then show "inv (snd (Remove q))" "max_len (snd (Remove q)) = max_len q"
    "contents (snd (Remove q)) = drop 1 (contents q)"
    "0 < count q \<Longrightarrow> fst (Remove q) = Inr ()"
    "0 < count q \<Longrightarrow> fst (PeekAndRemove q) = Inr (contents q ! 0)" by simp_all
qed


lemma Peek_ring:
  assumes "ring q" "0 < count q"
  shows "Peek q = (Inr (contents q ! 0), q)"
  using assms ring_pop(3) [OF assms] by (simp add: Peek_def)

lemma Get_ring:
  assumes "ring q" "0 \<le> i" "i < count q"
  shows "Get q i = (Inr (buf q ! nat ((head q + i) mod int (length (buf q)))), q)"
    and "buf q ! nat ((head q + i) mod int (length (buf q))) = contents q ! nat i"
proof -
  let ?n = "int (length (buf q))"
  have n: "0 < ?n" and h: "0 \<le> head q" using assms(1) unfolding ring_def by linarith+
  have g: "go_rem (head q + i) ?n = (head q + i) mod ?n"
    using h assms(2) n by (intro go_rem_mod) simp_all
  have m: "0 \<le> (head q + i) mod ?n" "(head q + i) mod ?n < ?n" using n by simp_all
  have ne: "length (buf q) \<noteq> 0" using n by simp
  show "Get q i = (Inr (buf q ! nat ((head q + i) mod ?n)), q)"
    using assms(2,3) ne m by (simp add: Get_def g index_def)
  have "nat i < nat (count q)" using assms(2,3) by simp
  then show "buf q ! nat ((head q + i) mod ?n) = contents q ! nat i"
    using assms(2) by (simp add: contents_def)
qed

lemma step_inv:
  assumes "inv q"
  shows "inv (step q c)"
    and "max_len (step q c) = max_len q"
    and "contents (step q c) = fifo_call (max_len q) (contents q) c"
proof -
  have "inv (step q c) \<and> max_len (step q c) = max_len q \<and>
        contents (step q c) = fifo_call (max_len q) (contents q) c"
  proof (cases c)
    case (CAdd x)
    then show ?thesis using Add_inv(2,3,4) [OF assms, of x] by simp
  next
    case CRemove
    then show ?thesis using Remove_inv(1,2,3) [OF assms] by simp
  next
    case CPeekAndRemove
    then show ?thesis using Remove_inv(1,2,3) [OF assms] by (simp add: snd_PeekAndRemove)
  next
    case CPeek
    then show ?thesis using assms by (simp add: Peek_def)
  next
    case (CGet i)
    then show ?thesis using assms by (simp add: Get_def)
  next
    case CLength
    then show ?thesis using assms by (simp add: Length_def)
  qed
  then show "inv (step q c)" "max_len (step q c) = max_len q"
    "contents (step q c) = fifo_call (max_len q) (contents q) c" by simp_all
qed

lemma exec_snoc: "exec (cs @ [c]) q = step (exec cs q) c"
  by (simp add: exec_def)

lemma exec_Cons: "exec (c # cs) q = exec cs (step q c)"
  by (simp add: exec_def)

lemma held_snoc: "held ml (cs @ [c]) = fifo_call ml (held ml cs) c"
  by (simp add: held_def)

lemma inv_exec:
  "inv (exec cs (New ml)) \<and> max_len (exec cs (New ml)) = ml \<and>
   contents (exec cs (New ml)) = held ml cs"
proof (induction cs rule: rev_induct)
  case Nil
  show ?case by (simp add: exec_def held_def inv_New contents_New) (simp add: New_def)
next
  case (snoc c cs)
  then show ?case using step_inv [of "exec cs (New ml)" c]
    by (simp add: exec_snoc held_snoc)
qed

lemma inv_count: "inv q \<Longrightarrow> count q = int (length (contents q))"
  by (simp add: inv_def ring_def length_contents)

lemma held_bound: "int (length (held ml cs)) \<le> max 0 ml"
proof (induction cs rule: rev_induct)
  case Nil
  show ?case by (simp add: held_def)
next
  case (snoc c cs)
  then show ?case by (cases c) (auto simp: held_snoc)
qed

lemma fifo_general:
  assumes "inv q" "int (length (contents q)) + int (length (added cs)) \<le> max_len q"
  shows "removed cs q @ contents (exec cs q) = contents q @ added cs"
  using assms
proof (induction cs arbitrary: q)
  case Nil
  then show ?case by (simp add: exec_def)
next
  case (Cons c cs)
  note si = step_inv [OF Cons.prems(1), of c]
  have cq: "count q = int (length (contents q))" using Cons.prems(1) by (rule inv_count)
  have r: "ring q" using Cons.prems(1) by (simp add: inv_def)
  have le: "int (length (contents (step q c))) + int (length (added cs)) \<le> max_len (step q c)"
    unfolding si(2,3) using Cons.prems(2) by (cases c) auto
  have IH: "removed cs (step q c) @ contents (exec cs (step q c)) = contents (step q c) @ added cs"
    using si(1) le by (rule Cons.IH)
  have tk: "taken q c @ fifo_call (max_len q) (contents q) c @ added cs =
    contents q @ added (c # cs)"
  proof (cases c)
    case (CAdd x)
    then show ?thesis using Cons.prems(2) by simp
  next
    case CRemove
    show ?thesis
    proof (cases "0 < count q")
      case True
      then have "contents q \<noteq> []" using cq by auto
      then have "contents q ! 0 # drop 1 (contents q) = contents q"
        by (cases "contents q") simp_all
      then show ?thesis using CRemove True Peek_ring [OF r True] Remove_inv(4) [OF Cons.prems(1) True]
        by simp
    next
      case False
      then have "contents q = []" using cq by simp
      then show ?thesis using CRemove False by (simp add: Peek_def Remove_def)
    qed
  next
    case CPeekAndRemove
    show ?thesis
    proof (cases "0 < count q")
      case True
      then have "contents q \<noteq> []" using cq by auto
      then have "contents q ! 0 # drop 1 (contents q) = contents q"
        by (cases "contents q") simp_all
      then show ?thesis using CPeekAndRemove True Remove_inv(5) [OF Cons.prems(1) True]
        by simp
    next
      case False
      then have "contents q = []" using cq by simp
      then show ?thesis using CPeekAndRemove False by (simp add: PeekAndRemove_def)
    qed
  next
    case CPeek
    then show ?thesis by simp
  next
    case (CGet i)
    then show ?thesis by simp
  next
    case CLength
    then show ?thesis by simp
  qed
  show ?case using IH tk by (simp add: exec_Cons si(3))
qed

subsection \<open>The failure conditions\<close>

lemma resize_fst_not_Panic: "fst (resize q) \<noteq> Inl (Panic s)"
  using resize_outcome [of q] by auto

lemma EmptyQueue_iff:
  "EmptyQueue (fst (Peek q)) \<longleftrightarrow> count q \<le> 0"
  "EmptyQueue (fst (Remove q)) \<longleftrightarrow> count q \<le> 0"
  "EmptyQueue (fst (PeekAndRemove q)) \<longleftrightarrow> count q \<le> 0"
  by (auto simp: EmptyQueue_def Peek_def Remove_def PeekAndRemove_def index_def Let_def
      resize_fst_not_Panic resize_not_Panic split: sum.splits prod.splits if_splits)

lemma IndexOutOfRange_iff: "IndexOutOfRange (fst (Get q i)) \<longleftrightarrow> i < 0 \<or> i \<ge> count q"
  by (auto simp: IndexOutOfRange_def Get_def index_def)


lemma inv_buf_ge: "inv q \<Longrightarrow> 16 \<le> length (buf q)"
  by (simp add: inv_def buflen_ok_ge)

lemma quarter_nat:
  fixes c :: int
  assumes "0 < c" "(c - 1) * 4 = int n"
  shows "4 * nat (c - 1) = n"
proof -
  obtain k where k: "c - 1 = int k"
    using assms(1) by (metis nonneg_int_cases zle_diff1_eq)
  with assms(2) have "int k * 4 = int n" by simp
  then have "4 * k = n" by arith
  then show ?thesis by (simp add: k)
qed


section \<open>The claims\<close>

text \<open>
  C1. The FIFO law: for every sequence of calls on a new queue whose calls of \<^verbatim>\<open>Add\<close>
  are no more than the limit, the elements taken out (the element \<^verbatim>\<open>Peek\<close> shows before
  each \<^verbatim>\<open>Remove\<close>, the element each \<^verbatim>\<open>PeekAndRemove\<close> returns), in the order of the
  removals, followed by the elements still held, oldest first, are exactly the elements
  added, in the order of their addition. So the \<open>k\<close>-th removal takes the \<open>k\<close>-th element
  added, which is the oldest one still held.
\<close>

theorem FIFO_law:
  assumes "int (length (added cs)) \<le> ml"
  shows "removed cs (New ml) @ contents (exec cs (New ml)) = added cs"
proof -
  have "max_len (New ml :: 'a Queue) = ml" by (simp add: New_def)
  then have "int (length (contents (New ml :: 'a Queue))) + int (length (added cs))
      \<le> max_len (New ml :: 'a Queue)"
    using assms by (simp add: contents_New)
  with inv_New have "removed cs (New ml) @ contents (exec cs (New ml)) =
      contents (New ml :: 'a Queue) @ added cs"
    by (rule fifo_general)
  then show ?thesis by (simp add: contents_New)
qed

theorem FIFO_law_witness:
  "int (length (added [CAdd (Some (1::int)), CAdd (Some 2), CRemove, CAdd (Some 3), CPeekAndRemove])) \<le> 3 \<and>
   removed [CAdd (Some (1::int)), CAdd (Some 2), CRemove, CAdd (Some 3), CPeekAndRemove] (New 3) =
     [Some 1, Some 2] \<and>
   [Some 1, Some 2] @
     contents (exec [CAdd (Some (1::int)), CAdd (Some 2), CRemove, CAdd (Some 3), CPeekAndRemove] (New 3)) =
     [Some 1, Some 2, Some 3]"
proof -
  let ?cs = "[CAdd (Some (1::int)), CAdd (Some 2), CRemove, CAdd (Some 3), CPeekAndRemove]"
  have h: "int (length (added ?cs)) \<le> 3" by simp
  have r: "removed ?cs (New 3) = [Some 1, Some 2]" by code_simp
  show ?thesis using h r FIFO_law [OF h] by simp
qed

text \<open>
  C2, as stated, fails for a negative limit: a queue constructed with limit \<open>-1\<close> has
  length 0, which is not at most \<open>-1\<close>.
\<close>

theorem capacity_counterexample:
  "fst (Length (New (- 1) :: int Queue)) = Inr 0 \<and>
   max_len (New (- 1) :: int Queue) = - 1 \<and>
   \<not> count (New (- 1) :: int Queue) \<le> max_len (New (- 1) :: int Queue)"
  by (simp add: Length_def New_def)

text \<open>
  C2, amended. The capacity law: after every sequence of calls on a new queue of limit
  \<open>ml\<close>, \<^verbatim>\<open>Length\<close> returns \<open>count\<close>, which is at most \<open>max 0 ml\<close>, so at most the limit
  when the limit is not negative; in every state an \<^verbatim>\<open>Add\<close> issued while \<open>count\<close> has
  reached the limit returns and leaves the queue as it was; and with a limit of zero or
  less every \<^verbatim>\<open>Add\<close> is rejected and the queue stays empty.
\<close>

theorem capacity_law:
  "fst (Length (exec cs (New ml))) = Inr (count (exec cs (New ml))) \<and>
   count (exec cs (New ml)) \<le> max 0 ml \<and>
   (0 \<le> ml \<longrightarrow> count (exec cs (New ml)) \<le> max_len (exec cs (New ml))) \<and>
   (max_len q \<le> count q \<longrightarrow> Add q x = (Inr (), q)) \<and>
   (ml \<le> 0 \<longrightarrow> Add (exec cs (New ml)) x = (Inr (), exec cs (New ml)) \<and>
      count (exec cs (New ml)) = 0 \<and> contents (exec cs (New ml)) = [])"
proof -
  let ?q = "exec cs (New ml)"
  note I = inv_exec [of cs ml]
  have c: "count ?q = int (length (held ml cs))" using I by (simp add: inv_count)
  have b: "count ?q \<le> max 0 ml" unfolding c by (rule held_bound)
  have "ml \<le> 0 \<Longrightarrow> count ?q = 0" using b c by simp
  moreover have "ml \<le> 0 \<Longrightarrow> contents ?q = []" using b c I by simp
  moreover have "ml \<le> 0 \<Longrightarrow> Add ?q x = (Inr (), ?q)"
    using b c I by (intro Add_full) simp
  ultimately show ?thesis using b I by (auto simp: Length_def Add_full)
qed

theorem capacity_law_witness:
  "max_len (exec [CAdd (Some (1::int)), CAdd (Some 2), CAdd (Some 3)] (New 3)) \<le>
     count (exec [CAdd (Some (1::int)), CAdd (Some 2), CAdd (Some 3)] (New 3)) \<and>
   Add (exec [CAdd (Some (1::int)), CAdd (Some 2), CAdd (Some 3)] (New 3)) (Some 4) =
     (Inr (), exec [CAdd (Some (1::int)), CAdd (Some 2), CAdd (Some 3)] (New 3)) \<and>
   (0::int) \<le> 3 \<and>
   count (exec [CAdd (Some (1::int)), CAdd (Some 2), CAdd (Some 3)] (New 3)) \<le> 3 \<and>
   (0::int) \<le> 0 \<and>
   Add (exec [CAdd (Some (1::int))] (New 0)) (Some 2) = (Inr (), exec [CAdd (Some (1::int))] (New 0)) \<and>
   contents (exec [CAdd (Some (1::int))] (New 0)) = []"
proof -
  let ?cs = "[CAdd (Some (1::int)), CAdd (Some 2), CAdd (Some 3)]"
  let ?q = "exec ?cs (New 3)"
  have h: "max_len ?q \<le> count ?q" by code_simp
  have m: "max_len ?q = 3" by code_simp
  show ?thesis
    using h m capacity_law [of ?cs 3 ?q "Some 4"]
      capacity_law [of "[CAdd (Some (1::int))]" 0 ?q "Some 2"]
    by simp
qed

text \<open>
  C3. \<^verbatim>\<open>Get\<close>: after every sequence of calls on a new queue and for every index \<open>i\<close>,
  \<^verbatim>\<open>Get(i)\<close> fails with the IndexOutOfRange condition exactly when \<open>i < 0\<close> or
  \<open>i \<ge> count\<close>; otherwise it returns \<open>buf[(head + i) mod len(buf)]\<close>, which is the \<open>i\<close>-th
  element, in insertion order, of the elements the specification's list holds (a list
  with no buffer, hence no wraparound); and it leaves the queue unchanged.
\<close>

theorem Get_semantics:
  "(IndexOutOfRange (fst (Get (exec cs (New ml)) i)) \<longleftrightarrow>
      i < 0 \<or> i \<ge> count (exec cs (New ml))) \<and>
   (0 \<le> i \<and> i < count (exec cs (New ml)) \<longrightarrow>
      fst (Get (exec cs (New ml)) i) =
        Inr (buf (exec cs (New ml)) !
             nat ((head (exec cs (New ml)) + i) mod int (length (buf (exec cs (New ml)))))) \<and>
      fst (Get (exec cs (New ml)) i) = Inr (held ml cs ! nat i)) \<and>
   count (exec cs (New ml)) = int (length (held ml cs)) \<and>
   snd (Get (exec cs (New ml)) i) = exec cs (New ml)"
proof -
  let ?q = "exec cs (New ml)"
  note I = inv_exec [of cs ml]
  have r: "ring ?q" using I by (simp add: inv_def)
  have A: "IndexOutOfRange (fst (Get ?q i)) \<longleftrightarrow> i < 0 \<or> i \<ge> count ?q"
    by (rule IndexOutOfRange_iff)
  have B: "0 \<le> i \<and> i < count ?q \<longrightarrow>
      fst (Get ?q i) = Inr (buf ?q ! nat ((head ?q + i) mod int (length (buf ?q)))) \<and>
      fst (Get ?q i) = Inr (held ml cs ! nat i)"
  proof
    assume "0 \<le> i \<and> i < count ?q"
    then have a: "0 \<le> i" "i < count ?q" by simp_all
    have "contents ?q = held ml cs" using I by simp
    then show "fst (Get ?q i) = Inr (buf ?q ! nat ((head ?q + i) mod int (length (buf ?q)))) \<and>
      fst (Get ?q i) = Inr (held ml cs ! nat i)"
      using Get_ring [OF r a] by simp
  qed
  have C: "count ?q = int (length (held ml cs))" using I by (simp add: inv_count)
  have D: "snd (Get ?q i) = ?q" by (simp add: Get_def)
  show ?thesis by (intro conjI A B C D)
qed

theorem Get_semantics_witness:
  "(0::int) \<le> 1 \<and> 1 < count scenario \<and>
   fst (Get scenario 1) = Inr (Some 2)"
proof -
  let ?cs = "[CAdd (Some 1), CAdd (Some 2), CAdd (Some 3), CAdd (Some (4::int))]"
  have h: "(0::int) \<le> 1 \<and> 1 < count (exec ?cs (New 3))" by code_simp
  have v: "held 3 ?cs ! nat 1 = Some 2" by code_simp
  have "fst (Get (exec ?cs (New 3)) 1) = Inr (held 3 ?cs ! nat 1)"
    using h Get_semantics [of ?cs 3 1] by blast
  then show ?thesis using h unfolding v scenario_def by simp
qed

text \<open>
  C4. After every sequence of calls on a new queue, each of \<^verbatim>\<open>Peek\<close>, \<^verbatim>\<open>Remove\<close> and
  \<^verbatim>\<open>PeekAndRemove\<close> fails with the EmptyQueue condition exactly when \<open>count\<close> is 0, and
  then leaves the queue unchanged; when \<open>count\<close> is not 0 the three return normally.
\<close>

theorem empty_queue_errors:
  "(EmptyQueue (fst (Peek (exec cs (New ml)))) \<longleftrightarrow> count (exec cs (New ml)) = 0) \<and>
   (EmptyQueue (fst (Remove (exec cs (New ml)))) \<longleftrightarrow> count (exec cs (New ml)) = 0) \<and>
   (EmptyQueue (fst (PeekAndRemove (exec cs (New ml)))) \<longleftrightarrow> count (exec cs (New ml)) = 0) \<and>
   (count (exec cs (New ml)) = 0 \<longrightarrow>
      snd (Peek (exec cs (New ml))) = exec cs (New ml) \<and>
      snd (Remove (exec cs (New ml))) = exec cs (New ml) \<and>
      snd (PeekAndRemove (exec cs (New ml))) = exec cs (New ml)) \<and>
   (count (exec cs (New ml)) \<noteq> 0 \<longrightarrow>
      fst (Peek (exec cs (New ml))) = Inr (held ml cs ! 0) \<and>
      fst (Remove (exec cs (New ml))) = Inr () \<and>
      fst (PeekAndRemove (exec cs (New ml))) = Inr (held ml cs ! 0))"
proof -
  let ?q = "exec cs (New ml)"
  note I = inv_exec [of cs ml]
  have r: "ring ?q" and i: "inv ?q" using I by (simp_all add: inv_def)
  have c: "0 \<le> count ?q" using r by (simp add: ring_def)
  have e: "count ?q \<le> 0 \<longleftrightarrow> count ?q = 0" using c by auto
  have A: "EmptyQueue (fst (Peek ?q)) \<longleftrightarrow> count ?q = 0"
    and B: "EmptyQueue (fst (Remove ?q)) \<longleftrightarrow> count ?q = 0"
    and C: "EmptyQueue (fst (PeekAndRemove ?q)) \<longleftrightarrow> count ?q = 0"
    by (simp_all only: EmptyQueue_iff e)
  have D: "count ?q = 0 \<longrightarrow> snd (Peek ?q) = ?q \<and> snd (Remove ?q) = ?q \<and>
      snd (PeekAndRemove ?q) = ?q"
    by (simp add: Peek_def Remove_empty)
  have E: "count ?q \<noteq> 0 \<longrightarrow> fst (Peek ?q) = Inr (held ml cs ! 0) \<and>
      fst (Remove ?q) = Inr () \<and> fst (PeekAndRemove ?q) = Inr (held ml cs ! 0)"
  proof
    assume "count ?q \<noteq> 0"
    then have p: "0 < count ?q" using c by simp
    have "contents ?q = held ml cs" using I by simp
    then show "fst (Peek ?q) = Inr (held ml cs ! 0) \<and>
      fst (Remove ?q) = Inr () \<and> fst (PeekAndRemove ?q) = Inr (held ml cs ! 0)"
      using Peek_ring [OF r p] Remove_inv(4,5) [OF i p] by simp
  qed
  show ?thesis by (intro conjI A B C D E)
qed

theorem empty_queue_errors_witness:
  "count (exec [] (New 3 :: int Queue)) = 0 \<and>
   Peek (New 3 :: int Queue) = (Inl (Panic ''queue: Peek() called on empty queue''), New 3) \<and>
   snd (Remove (New 3 :: int Queue)) = New 3 \<and>
   snd (PeekAndRemove (New 3 :: int Queue)) = New 3 \<and>
   count scenario \<noteq> 0 \<and>
   fst (Peek scenario) = Inr (Some 1) \<and> fst (Remove scenario) = Inr () \<and>
   fst (PeekAndRemove scenario) = Inr (Some 1)"
proof -
  let ?cs = "[CAdd (Some 1), CAdd (Some 2), CAdd (Some 3), CAdd (Some (4::int))]"
  have e: "exec [] (New 3 :: int Queue) = New 3" by (simp add: exec_def)
  have h0: "count (exec [] (New 3 :: int Queue)) = 0" by (simp add: New_def exec_def)
  have p: "fst (Peek (New 3 :: int Queue)) = Inl (Panic ''queue: Peek() called on empty queue'')"
    by (simp add: Peek_def New_def)
  have h1: "count (exec ?cs (New 3)) \<noteq> 0" by code_simp
  have v: "held 3 ?cs ! 0 = Some 1" by code_simp
  have "snd (Peek (exec [] (New 3 :: int Queue))) = exec [] (New 3) \<and>
      snd (Remove (exec [] (New 3 :: int Queue))) = exec [] (New 3) \<and>
      snd (PeekAndRemove (exec [] (New 3 :: int Queue))) = exec [] (New 3)"
    using h0 empty_queue_errors [of "[] :: int call list" 3] by blast
  moreover have "fst (Peek (exec ?cs (New 3))) = Inr (held 3 ?cs ! 0) \<and>
      fst (Remove (exec ?cs (New 3))) = Inr () \<and>
      fst (PeekAndRemove (exec ?cs (New 3))) = Inr (held 3 ?cs ! 0)"
    using h1 empty_queue_errors [of ?cs 3] by blast
  ultimately show ?thesis using h0 h1 p unfolding v e scenario_def
    by (simp add: prod_eq_iff)
qed

text \<open>
  C5. Resizing: after every sequence of calls on a new queue, the buffer has at least 16
  slots and the elements held are those of the specification's list, which has no buffer
  and is never resized: nothing is lost, duplicated or reordered. When the next \<^verbatim>\<open>Add\<close>
  grows the buffer (\<open>count\<close> is below the limit and equals the buffer length), \<^verbatim>\<open>resize\<close>
  returns with \<open>head = 0\<close> and \<open>tail = count\<close>, the same elements and twice the length, and
  the \<^verbatim>\<open>Add\<close> ends with \<open>head = 0\<close> and \<open>tail = count\<close>. When the next \<^verbatim>\<open>Remove\<close> or
  \<^verbatim>\<open>PeekAndRemove\<close> shrinks it (the buffer is longer than 16 and four times the
  decremented \<open>count\<close>), the call ends with \<open>head = 0\<close>, \<open>tail = count\<close> and half the length.
\<close>

theorem resize_correctness:
  assumes "q = exec cs (New ml)"
  shows "16 \<le> length (buf q) \<and>
    contents q = held ml cs \<and>
    (count q < max_len q \<and> count q = int (length (buf q)) \<longrightarrow>
       fst (resize q) = Inr () \<and>
       head (snd (resize q)) = 0 \<and> tail (snd (resize q)) = count (snd (resize q)) \<and>
       contents (snd (resize q)) = contents q \<and>
       length (buf (snd (resize q))) = 2 * length (buf q) \<and>
       head (snd (Add q x)) = 0 \<and> tail (snd (Add q x)) = count (snd (Add q x)) \<and>
       contents (snd (Add q x)) = contents q @ [x] \<and>
       length (buf (snd (Add q x))) = 2 * length (buf q)) \<and>
    (0 < count q \<and> minQueueLen < int (length (buf q)) \<and>
     (count q - 1) * 4 = int (length (buf q)) \<longrightarrow>
       head (snd (Remove q)) = 0 \<and> tail (snd (Remove q)) = count (snd (Remove q)) \<and>
       contents (snd (Remove q)) = drop 1 (contents q) \<and>
       2 * length (buf (snd (Remove q))) = length (buf q) \<and>
       snd (PeekAndRemove q) = snd (Remove q))"
proof -
  note I = inv_exec [of cs ml, folded assms]
  have i: "inv q" and r: "ring q" using I by (simp_all add: inv_def)
  have A: "16 \<le> length (buf q)" using i by (rule inv_buf_ge)
  have B: "contents q = held ml cs" using I by simp
  have C: "count q < max_len q \<and> count q = int (length (buf q)) \<longrightarrow>
       fst (resize q) = Inr () \<and>
       head (snd (resize q)) = 0 \<and> tail (snd (resize q)) = count (snd (resize q)) \<and>
       contents (snd (resize q)) = contents q \<and>
       length (buf (snd (resize q))) = 2 * length (buf q) \<and>
       head (snd (Add q x)) = 0 \<and> tail (snd (Add q x)) = count (snd (Add q x)) \<and>
       contents (snd (Add q x)) = contents q @ [x] \<and>
       length (buf (snd (Add q x))) = 2 * length (buf q)"
  proof
    assume g: "count q < max_len q \<and> count q = int (length (buf q))"
    then have c1: "1 < count q" and c0: "0 < count q" using A by linarith+
    have lc: "length (contents q) = length (buf q)" using g by (simp add: length_contents)
    have R: "resize q = (Inr (), q\<lparr>head := 0, tail := count q,
           buf := contents q @ replicate (nat (count q)) None\<rparr>)"
      using r c0 by (rule resize_ring)
    have G: "Add q x = (Inr (), q\<lparr>head := 0, tail := count q + 1, count := count q + 1,
            buf := contents q @ x # replicate (nat (count q) - 1) None\<rparr>)"
      using r g c1 by (intro Add_grow) simp_all
    have cA: "contents (snd (Add q x)) = contents q @ [x]"
      using Add_inv(4) [OF i, of x] g inv_count [OF i] by simp
    have "1 < length (buf q)" using A by simp
    then show "fst (resize q) = Inr () \<and>
       head (snd (resize q)) = 0 \<and> tail (snd (resize q)) = count (snd (resize q)) \<and>
       contents (snd (resize q)) = contents q \<and>
       length (buf (snd (resize q))) = 2 * length (buf q) \<and>
       head (snd (Add q x)) = 0 \<and> tail (snd (Add q x)) = count (snd (Add q x)) \<and>
       contents (snd (Add q x)) = contents q @ [x] \<and>
       length (buf (snd (Add q x))) = 2 * length (buf q)"
      unfolding cA unfolding R G using ring_resized(2) [OF r c0] g by (simp add: lc)
  qed
  have D: "0 < count q \<and> minQueueLen < int (length (buf q)) \<and>
     (count q - 1) * 4 = int (length (buf q)) \<longrightarrow>
       head (snd (Remove q)) = 0 \<and> tail (snd (Remove q)) = count (snd (Remove q)) \<and>
       contents (snd (Remove q)) = drop 1 (contents q) \<and>
       2 * length (buf (snd (Remove q))) = length (buf q) \<and>
       snd (PeekAndRemove q) = snd (Remove q)"
  proof
    assume s: "0 < count q \<and> minQueueLen < int (length (buf q)) \<and>
     (count q - 1) * 4 = int (length (buf q))"
    then have p: "0 < count q" by simp
    let ?q3 = "q\<lparr>buf := (buf q)[nat (head q) := None],
                     head := (head q + 1) mod int (length (buf q)), count := count q - 1\<rparr>"
    have R: "Remove q = (Inr (), ?q3\<lparr>head := 0, tail := count ?q3,
                             buf := contents ?q3 @ replicate (nat (count ?q3)) None\<rparr>)"
      using s by (simp only: Remove_ring(1) [OF r p] if_True simp_thms)
    have "4 * nat (count q - 1) = length (buf q)" using s by (intro quarter_nat) simp_all
    then have l: "2 * (nat (count q - 1) + nat (count q - 1)) = length (buf q)" by simp
    show "head (snd (Remove q)) = 0 \<and> tail (snd (Remove q)) = count (snd (Remove q)) \<and>
       contents (snd (Remove q)) = drop 1 (contents q) \<and>
       2 * length (buf (snd (Remove q))) = length (buf q) \<and>
       snd (PeekAndRemove q) = snd (Remove q)"
      using Remove_inv(3) [OF i] l by (simp add: snd_PeekAndRemove) (simp add: R length_contents)
  qed
  show ?thesis by (intro conjI A B C D)
qed

theorem resize_correctness_witness:
  "count (exec (replicate 16 (CAdd (Some (7::int)))) (New 40)) <
     max_len (exec (replicate 16 (CAdd (Some (7::int)))) (New 40)) \<and>
   count (exec (replicate 16 (CAdd (Some (7::int)))) (New 40)) =
     int (length (buf (exec (replicate 16 (CAdd (Some (7::int)))) (New 40)))) \<and>
   length (buf (snd (Add (exec (replicate 16 (CAdd (Some (7::int)))) (New 40)) (Some 8)))) = 32 \<and>
   tail (snd (Add (exec (replicate 16 (CAdd (Some (7::int)))) (New 40)) (Some 8))) = 17 \<and>
   0 < count (exec (replicate 17 (CAdd (Some (7::int))) @ replicate 8 CRemove) (New 40)) \<and>
   minQueueLen <
     int (length (buf (exec (replicate 17 (CAdd (Some (7::int))) @ replicate 8 CRemove) (New 40)))) \<and>
   (count (exec (replicate 17 (CAdd (Some (7::int))) @ replicate 8 CRemove) (New 40)) - 1) * 4 =
     int (length (buf (exec (replicate 17 (CAdd (Some (7::int))) @ replicate 8 CRemove) (New 40)))) \<and>
   length (buf (snd (Remove (exec (replicate 17 (CAdd (Some (7::int))) @ replicate 8 CRemove) (New 40))))) = 16 \<and>
   tail (snd (Remove (exec (replicate 17 (CAdd (Some (7::int))) @ replicate 8 CRemove) (New 40)))) = 8"
proof -
  let ?g = "exec (replicate 16 (CAdd (Some (7::int)))) (New 40)"
  let ?s = "exec (replicate 17 (CAdd (Some (7::int))) @ replicate 8 CRemove) (New 40)"
  have g: "count ?g < max_len ?g \<and> count ?g = int (length (buf ?g))" by code_simp
  have gl: "length (buf ?g) = 16" by code_simp
  have s: "0 < count ?s \<and> minQueueLen < int (length (buf ?s)) \<and>
     (count ?s - 1) * 4 = int (length (buf ?s))" by code_simp
  have sl: "length (buf ?s) = 32" by code_simp
  have cg: "count (snd (Add ?g (Some 8))) = 17" by code_simp
  have cs: "count (snd (Remove ?s)) = 8" by code_simp
  have "tail (snd (Add ?g (Some 8))) = count (snd (Add ?g (Some 8))) \<and>
      length (buf (snd (Add ?g (Some 8)))) = 2 * length (buf ?g)"
    using g resize_correctness [OF refl, of "replicate 16 (CAdd (Some (7::int)))" 40 "Some 8"]
    by blast
  moreover have "tail (snd (Remove ?s)) = count (snd (Remove ?s)) \<and>
      2 * length (buf (snd (Remove ?s))) = length (buf ?s)"
    using s resize_correctness [OF refl, of "replicate 17 (CAdd (Some (7::int))) @ replicate 8 CRemove" 40]
    by blast
  ultimately show ?thesis using g s unfolding gl sl cg cs by simp
qed

text \<open>
  C6. The concrete scenario: on a queue constructed with limit 3, the calls \<^verbatim>\<open>Add(1)\<close>,
  \<^verbatim>\<open>Add(2)\<close>, \<^verbatim>\<open>Add(3)\<close>, \<^verbatim>\<open>Add(4)\<close> all return; after them the length is 3 and
  \<^verbatim>\<open>Get\<close> returns 1, 2, 3 at the indices 0, 1, 2; the fourth \<^verbatim>\<open>Add\<close> was dropped (the
  queue is the one after the first three); \<^verbatim>\<open>Remove\<close> then returns, and after it the
  length is 2 and \<^verbatim>\<open>Get(0)\<close> is 2.
\<close>

theorem concrete_scenario:
  "fst (Add (New 3) (Some (1::int))) = Inr () \<and>
   fst (Add (exec [CAdd (Some 1)] (New 3)) (Some (2::int))) = Inr () \<and>
   fst (Add (exec [CAdd (Some 1), CAdd (Some 2)] (New 3)) (Some (3::int))) = Inr () \<and>
   fst (Add (exec [CAdd (Some 1), CAdd (Some 2), CAdd (Some 3)] (New 3)) (Some (4::int))) =
     Inr () \<and>
   fst (Length scenario) = Inr 3 \<and>
   fst (Get scenario 0) = Inr (Some 1) \<and>
   fst (Get scenario 1) = Inr (Some 2) \<and>
   fst (Get scenario 2) = Inr (Some 3) \<and>
   scenario = exec [CAdd (Some 1), CAdd (Some 2), CAdd (Some 3)] (New 3) \<and>
   fst (Remove scenario) = Inr () \<and>
   fst (Length (snd (Remove scenario))) = Inr 2 \<and>
   fst (Get (snd (Remove scenario)) 0) = Inr (Some 2)"
  by code_simp

text \<open>
  C7. \<^verbatim>\<open>PeekAndRemove\<close> is \<^verbatim>\<open>Peek\<close> followed by \<^verbatim>\<open>Remove\<close>, in every state of the queue:
  it fails with the EmptyQueue condition exactly when \<^verbatim>\<open>Peek\<close> does; when \<^verbatim>\<open>Peek\<close> does
  not, it has the outcome of the composition (the element \<^verbatim>\<open>Peek\<close> returns) and leaves
  the queue that \<^verbatim>\<open>Remove\<close>, with its shrink step, leaves; and in every case the two
  leave the same queue.
\<close>

theorem PeekAndRemove_is_Peek_then_Remove:
  "(EmptyQueue (fst (PeekAndRemove q)) \<longleftrightarrow> EmptyQueue (fst (Peek q))) \<and>
   (\<not> EmptyQueue (fst (Peek q)) \<longrightarrow> PeekAndRemove q = Peek_then_Remove q) \<and>
   snd (PeekAndRemove q) = snd (Peek_then_Remove q)"
  by (auto simp: EmptyQueue_def PeekAndRemove_def Peek_def Remove_def Peek_then_Remove_def
      index_def Let_def resize_not_Panic split: sum.splits prod.splits if_splits)

theorem PeekAndRemove_is_Peek_then_Remove_witness:
  "\<not> EmptyQueue (fst (Peek scenario)) \<and>
   PeekAndRemove scenario = Peek_then_Remove scenario \<and>
   fst (PeekAndRemove scenario) = Inr (Some 1)"
proof -
  have h: "\<not> EmptyQueue (fst (Peek scenario))" by code_simp
  have v: "fst (PeekAndRemove scenario) = Inr (Some 1)" by code_simp
  show ?thesis using h v PeekAndRemove_is_Peek_then_Remove [of scenario] by simp
qed

text \<open>
  C8, as stated, fails in a state that already holds an element: after \<^verbatim>\<open>Add(1)\<close> and
  \<^verbatim>\<open>Add(2)\<close> on a new queue of limit 3, \<^verbatim>\<open>Peek\<close> returns 1, the oldest element, not 2.
\<close>

theorem round_trip_counterexample:
  "fst (Peek (snd (Add (snd (Add (New 3) (Some (1::int)))) (Some 2)))) = Inr (Some 1) \<and>
   fst (Peek (snd (Add (snd (Add (New 3) (Some (1::int)))) (Some 2)))) \<noteq> Inr (Some 2)"
  by code_simp

text \<open>
  C8, amended. The round trip: in every state reached by a sequence of calls on a new
  queue, and for every element \<open>x\<close>: if the queue is empty and the limit is at least 1,
  then \<^verbatim>\<open>Add(x)\<close> returns, and after it \<^verbatim>\<open>Peek\<close> returns \<open>x\<close> and \<^verbatim>\<open>PeekAndRemove\<close> returns
  \<open>x\<close>; and whenever the queue holds an element after \<^verbatim>\<open>Add(x)\<close>, \<^verbatim>\<open>PeekAndRemove\<close> returns
  the element \<^verbatim>\<open>Peek\<close> returns and the length decreases by exactly 1 across the removal.
\<close>

theorem round_trip:
  assumes "q = exec cs (New ml)"
  shows "(count q = 0 \<and> 0 < ml \<longrightarrow>
       fst (Add q x) = Inr () \<and>
       fst (Peek (snd (Add q x))) = Inr x \<and>
       fst (PeekAndRemove (snd (Add q x))) = Inr x) \<and>
    (count (snd (Add q x)) \<noteq> 0 \<longrightarrow>
       fst (PeekAndRemove (snd (Add q x))) = fst (Peek (snd (Add q x))) \<and>
       fst (Length (snd (PeekAndRemove (snd (Add q x))))) =
         Inr (count (snd (Add q x)) - 1) \<and>
       fst (Length (snd (Add q x))) = Inr (count (snd (Add q x))))"
proof -
  let ?q' = "snd (Add q x)"
  note I = inv_exec [of cs ml, folded assms]
  have i: "inv q" using I by simp
  have i': "inv ?q'" using i by (rule Add_inv(2))
  have r': "ring ?q'" using i' by (simp add: inv_def)
  have nn: "0 \<le> count ?q'" using r' by (simp add: ring_def)
  have B: "count ?q' \<noteq> 0 \<longrightarrow>
       fst (PeekAndRemove ?q') = fst (Peek ?q') \<and>
       fst (Length (snd (PeekAndRemove ?q'))) = Inr (count ?q' - 1) \<and>
       fst (Length ?q') = Inr (count ?q')"
  proof
    assume "count ?q' \<noteq> 0"
    then have p: "0 < count ?q'" using nn by simp
    have "inv (snd (Remove ?q'))" using i' by (rule Remove_inv(1))
    then have "count (snd (Remove ?q')) = int (length (contents (snd (Remove ?q'))))"
      by (rule inv_count)
    also have "\<dots> = int (length (drop 1 (contents ?q')))"
      using Remove_inv(3) [OF i'] by simp
    also have "\<dots> = count ?q' - 1"
    proof -
      have "count ?q' = int (length (contents ?q'))" using i' by (rule inv_count)
      moreover from this p have "1 \<le> length (contents ?q')" by linarith
      ultimately show ?thesis by (simp add: of_nat_diff)
    qed
    finally have c: "count (snd (PeekAndRemove ?q')) = count ?q' - 1"
      by (simp add: snd_PeekAndRemove)
    show "fst (PeekAndRemove ?q') = fst (Peek ?q') \<and>
       fst (Length (snd (PeekAndRemove ?q'))) = Inr (count ?q' - 1) \<and>
       fst (Length ?q') = Inr (count ?q')"
      using Peek_ring [OF r' p] Remove_inv(5) [OF i' p] c by (simp add: Length_def)
  qed
  have A: "count q = 0 \<and> 0 < ml \<longrightarrow>
       fst (Add q x) = Inr () \<and>
       fst (Peek ?q') = Inr x \<and>
       fst (PeekAndRemove ?q') = Inr x"
  proof
    assume e: "count q = 0 \<and> 0 < ml"
    have "contents q = []" using e inv_count [OF i] by simp
    then have c': "contents ?q' = [x]" using Add_inv(4) [OF i, of x] I e by simp
    then have p: "0 < count ?q'" using inv_count [OF i'] by simp
    show "fst (Add q x) = Inr () \<and> fst (Peek ?q') = Inr x \<and> fst (PeekAndRemove ?q') = Inr x"
      using Add_inv(1) [OF i, of x] Peek_ring [OF r' p] Remove_inv(5) [OF i' p] c' by simp
  qed
  show ?thesis by (intro conjI A B)
qed

theorem round_trip_witness:
  "count (exec [CAdd (Some (1::int)), CPeekAndRemove] (New 3)) = 0 \<and> (0::int) < 3 \<and>
   fst (Peek (snd (Add (exec [CAdd (Some (1::int)), CPeekAndRemove] (New 3)) (Some (5::int))))) =
     Inr (Some 5) \<and>
   fst (PeekAndRemove (snd (Add (exec [CAdd (Some (1::int)), CPeekAndRemove] (New 3)) (Some (5::int))))) =
     Inr (Some 5) \<and>
   count (snd (Add (exec [CAdd (Some (1::int)), CPeekAndRemove] (New 3)) (Some (5::int)))) \<noteq> 0 \<and>
   fst (Length (snd (PeekAndRemove
     (snd (Add (exec [CAdd (Some (1::int)), CPeekAndRemove] (New 3)) (Some (5::int))))))) = Inr 0"
proof -
  let ?cs = "[CAdd (Some (1::int)), CPeekAndRemove]"
  have h: "count (exec ?cs (New 3)) = 0 \<and> (0::int) < 3" by code_simp
  have c: "count (snd (Add (exec ?cs (New 3)) (Some 5))) = 1" by code_simp
  then have n: "count (snd (Add (exec ?cs (New 3)) (Some 5))) \<noteq> 0" by simp
  note T = round_trip [OF refl, of ?cs 3 "Some 5"]
  have "fst (Peek (snd (Add (exec ?cs (New 3)) (Some 5)))) = Inr (Some 5) \<and>
      fst (PeekAndRemove (snd (Add (exec ?cs (New 3)) (Some 5)))) = Inr (Some 5)"
    using h T by blast
  moreover have "fst (Length (snd (PeekAndRemove (snd (Add (exec ?cs (New 3)) (Some 5)))))) =
      Inr (count (snd (Add (exec ?cs (New 3)) (Some 5))) - 1)"
    using n T by blast
  ultimately show ?thesis using h n unfolding c by simp
qed

text \<open>
  C10. The observers change nothing: \<^verbatim>\<open>Length\<close>, \<^verbatim>\<open>Peek\<close> and \<^verbatim>\<open>Get\<close> leave the queue
  (every field of it) as it was, in every state and for every index, whether they return
  or panic.
\<close>

theorem observers_pure:
  "snd (Length q) = q \<and> snd (Peek q) = q \<and> snd (Get q i) = q"
  by (simp add: Length_def Peek_def Get_def)

end
